theory Spec2Isabelle
  imports Main "HOL-Library.Sublist"
begin

section \<open>Python string operations used by the downloader\<close>

text \<open>
  Python \<open>str\<close> values are modelled as \<open>string\<close> (lists of 8-bit characters, i.e. ASCII
  text). \<open>s.startswith(p)\<close> is \<open>prefix p s\<close>, \<open>s.endswith(p)\<close> is \<open>suffix p s\<close> and
  \<open>p in s\<close> is \<open>sublist p s\<close> (a contiguous occurrence), all from \<open>HOL-Library.Sublist\<close>.
\<close>

text \<open>\<open>s.split(sep)\<close> for a one-character separator: always at least one segment.\<close>

fun split_on :: "char \<Rightarrow> string \<Rightarrow> string list" where
  "split_on sep [] = [[]]"
| "split_on sep (c # cs) =
     (if c = sep then [] # split_on sep cs
      else (case split_on sep cs of
              [] \<Rightarrow> [[c]]
            | seg # segs \<Rightarrow> (c # seg) # segs))"

text \<open>\<open>sep.join(parts)\<close>.\<close>

fun join :: "string \<Rightarrow> string list \<Rightarrow> string" where
  "join sep [] = []"
| "join sep [x] = x"
| "join sep (x # y # ys) = x @ sep @ join sep (y # ys)"

text \<open>\<open>s.lstrip(chars)\<close>: drops every leading character that occurs in \<open>chars\<close>.\<close>

definition lstrip :: "string \<Rightarrow> string \<Rightarrow> string" where
  "lstrip chars s = dropWhile (\<lambda>c. c \<in> set chars) s"

text \<open>\<open>s.lower()\<close> on ASCII text: only \<open>A\<close>..\<open>Z\<close> change.\<close>

definition lower_char :: "char \<Rightarrow> char" where
  "lower_char c =
     (case map_of (zip ''ABCDEFGHIJKLMNOPQRSTUVWXYZ'' ''abcdefghijklmnopqrstuvwxyz'') c of
        Some d \<Rightarrow> d
      | None \<Rightarrow> c)"

definition lower :: "string \<Rightarrow> string" where
  "lower s = map lower_char s"

text \<open>\<open>s.startswith((p1, p2, ...))\<close> and \<open>s.endswith((p1, p2, ...))\<close> with a tuple.\<close>

definition startswith_any :: "string \<Rightarrow> string list \<Rightarrow> bool" where
  "startswith_any s ps = list_ex (\<lambda>p. prefix p s) ps"

definition endswith_any :: "string \<Rightarrow> string list \<Rightarrow> bool" where
  "endswith_any s ps = list_ex (\<lambda>p. suffix p s) ps"

section \<open>Path normalisation: \<open>_clean_source_path\<close>\<close>

text \<open>Removal of the \<open>webpack://\<close> prefix (\<open>source_path[10:]\<close>).\<close>

definition strip_webpack_prefix :: "string \<Rightarrow> string" where
  "strip_webpack_prefix source_path =
     (if prefix ''webpack://'' source_path then drop 10 source_path else source_path)"

text \<open>
  The test on \<open>parts\<close> that decides whether the first segment is skipped as a project name:
  \<open>len(parts) > 1 and not parts[0].endswith((...))\<close>, then
  \<open>parts[0] in ['src', '.', '..'] or len(parts[0]) > 20\<close>.
\<close>

definition skips_first_part :: "string list \<Rightarrow> bool" where
  "skips_first_part parts =
     (length parts > 1
      \<and> \<not> endswith_any (hd parts) [''.js'', ''.ts'', ''.jsx'', ''.tsx'', ''.css'']
      \<and> (hd parts \<in> set [''src'', ''.'', ''..''] \<or> length (hd parts) > 20))"

text \<open>The \<open>if source_path.startswith('./') ... elif '/' in source_path ...\<close> statement.\<close>

definition handle_path_pattern :: "string \<Rightarrow> string" where
  "handle_path_pattern source_path =
     (if prefix ''./'' source_path then drop 2 source_path
      else if CHR ''/'' \<in> set source_path then
        (let parts = split_on CHR ''/'' source_path
         in if skips_first_part parts then join ''/'' (tl parts) else source_path)
      else source_path)"

text \<open>The two \<open>lstrip\<close> calls that follow.\<close>

definition strip_leading :: "string \<Rightarrow> string" where
  "strip_leading source_path = lstrip ''/'' (lstrip ''./'' source_path)"

text \<open>Folder inference for a bare, non-empty file name.\<close>

definition infer_folder :: "string \<Rightarrow> string" where
  "infer_folder source_path =
     (if CHR ''/'' \<notin> set source_path \<and> source_path \<noteq> [] then
        (if startswith_any source_path [''App.'', ''index.''] then ''src/'' @ source_path
         else if startswith_any source_path [''component'', ''Component'']
           then ''src/components/'' @ source_path
         else if suffix ''.css'' source_path then ''src/styles/'' @ source_path
         else source_path)
      else source_path)"

text \<open>The path as it stands just before the \<open>return\<close> statement.\<close>

definition cleaned :: "string \<Rightarrow> string" where
  "cleaned original_path =
     infer_folder (strip_leading (handle_path_pattern (strip_webpack_prefix original_path)))"

text \<open>
  \<open>_clean_source_path\<close>:
  \<open>return source_path if source_path else original_path.split('/')[-1]\<close>.
\<close>

definition clean_source_path :: "string \<Rightarrow> string" where
  "clean_source_path original_path =
     (let source_path = cleaned original_path
      in if source_path \<noteq> [] then source_path
         else last (split_on CHR ''/'' original_path))"

text \<open>\<open>_determine_file_type\<close>: the first matching extension of the \<open>if\<close>/\<open>elif\<close> chain.\<close>

definition determine_file_type :: "string \<Rightarrow> string" where
  "determine_file_type p =
     (if suffix ''.jsx'' p then ''jsx''
      else if suffix ''.tsx'' p then ''tsx''
      else if suffix ''.ts'' p then ''ts''
      else if suffix ''.js'' p then ''js''
      else if suffix ''.css'' p then ''css''
      else if suffix ''.scss'' p then ''scss''
      else if suffix ''.sass'' p then ''sass''
      else if suffix ''.json'' p then ''json''
      else ''unknown'')"

section \<open>Parsed map payloads and the Python operations applied to them\<close>

text \<open>
  The value returned by \<open>json.loads\<close>. An object is the list of its items in insertion
  order (keys pairwise distinct, as in a Python \<open>dict\<close>). The payload of a number is never
  inspected by the code: integers and floats behave alike in every operation below.
\<close>

datatype json =
    JNull
  | JBool bool
  | JNum int
  | JStr string
  | JArr "json list"
  | JObj "(string \<times> json) list"

text \<open>The exceptions that the body of \<open>_parse_source_map\<close> can raise.\<close>

datatype py_error = JSONDecodeError | TypeError | AttributeError | KeyError

text \<open>\<open>key in v\<close> for a string \<open>key\<close>: dictionary key, list element, or substring.\<close>

fun py_contains :: "string \<Rightarrow> json \<Rightarrow> py_error + bool" where
  "py_contains k (JObj kvs) = Inr (k \<in> set (map fst kvs))"
| "py_contains k (JArr xs) = Inr (JStr k \<in> set xs)"
| "py_contains k (JStr s) = Inr (sublist k s)"
| "py_contains k JNull = Inl TypeError"
| "py_contains k (JBool b) = Inl TypeError"
| "py_contains k (JNum n) = Inl TypeError"

text \<open>\<open>v[key]\<close> for a string \<open>key\<close>: only a dictionary accepts it.\<close>

fun py_getitem :: "json \<Rightarrow> string \<Rightarrow> py_error + json" where
  "py_getitem (JObj kvs) k = (case map_of kvs k of None \<Rightarrow> Inl KeyError | Some v \<Rightarrow> Inr v)"
| "py_getitem (JArr xs) k = Inl TypeError"
| "py_getitem (JStr s) k = Inl TypeError"
| "py_getitem JNull k = Inl TypeError"
| "py_getitem (JBool b) k = Inl TypeError"
| "py_getitem (JNum n) k = Inl TypeError"

text \<open>\<open>len(v)\<close>.\<close>

fun py_len :: "json \<Rightarrow> py_error + nat" where
  "py_len (JObj kvs) = Inr (length kvs)"
| "py_len (JArr xs) = Inr (length xs)"
| "py_len (JStr s) = Inr (length s)"
| "py_len JNull = Inl TypeError"
| "py_len (JBool b) = Inl TypeError"
| "py_len (JNum n) = Inl TypeError"

text \<open>
  The items that \<open>for x in v\<close> and \<open>zip\<close> draw from \<open>v\<close>: the elements of a list, the
  one-character strings of a string, the keys of a dictionary.
\<close>

fun py_iter :: "json \<Rightarrow> py_error + json list" where
  "py_iter (JArr xs) = Inr xs"
| "py_iter (JStr s) = Inr (map (\<lambda>c. JStr [c]) s)"
| "py_iter (JObj kvs) = Inr (map (\<lambda>kv. JStr (fst kv)) kvs)"
| "py_iter JNull = Inl TypeError"
| "py_iter (JBool b) = Inl TypeError"
| "py_iter (JNum n) = Inl TypeError"

text \<open>Sequencing of operations that may raise.\<close>

definition try_bind :: "py_error + 'a \<Rightarrow> ('a \<Rightarrow> py_error + 'b) \<Rightarrow> py_error + 'b" where
  "try_bind m f = (case m of Inl e \<Rightarrow> Inl e | Inr x \<Rightarrow> f x)"

section \<open>The ledger \<open>discovered_files\<close> and \<open>_parse_source_map\<close>\<close>

text \<open>One entry of \<open>self.discovered_files\<close> (the key \<open>'type'\<close> is the field \<open>file_type\<close>).\<close>

record source_record =
  path :: string
  content :: json
  file_type :: string
  source :: string
  original_path :: string

type_synonym ledger = "source_record list"

text \<open>\<open>any(f['path'] == clean_path for f in self.discovered_files)\<close>.\<close>

definition has_path :: "ledger \<Rightarrow> string \<Rightarrow> bool" where
  "has_path files clean_path = list_ex (\<lambda>f. path f = clean_path) files"

text \<open>
  The condition of the \<open>if\<close> in the \<open>sourcesContent\<close> branch, with Python's precedence:
  \<open>not\<close> binds tighter than \<open>and\<close>, \<open>and\<close> tighter than \<open>or\<close>, so the condition reads
  \<open>(clean_path and not ... and clean_path != source_path) or not any(...)\<close>.
\<close>

definition keeps_source :: "string \<Rightarrow> string \<Rightarrow> bool" where
  "keeps_source clean_path source_path =
     ((clean_path \<noteq> []
       \<and> \<not> sublist ''node_modules'' (lower clean_path)
       \<and> \<not> sublist ''webpack/'' clean_path
       \<and> \<not> sublist ''(webpack)'' clean_path
       \<and> \<not> prefix ''multi '' clean_path
       \<and> \<not> prefix ''webpack:'' clean_path
       \<and> clean_path \<noteq> source_path)
      \<or> \<not> list_ex (\<lambda>skip. sublist skip (lower source_path))
            [''webpack-dev-server'', ''hot-dev-server'', ''webpack/hot''])"

text \<open>
  One iteration of the loop over \<open>zip(sources, contents)\<close>. A source that is not a string has
  no \<open>startswith\<close>: \<open>_clean_source_path\<close> raises \<open>AttributeError\<close>.
\<close>

definition add_embedded :: "json \<Rightarrow> json \<Rightarrow> ledger \<Rightarrow> py_error + ledger" where
  "add_embedded src cont files =
     (if cont = JNull then Inr files
      else (case src of
              JStr source_path \<Rightarrow>
                (let clean_path = clean_source_path source_path
                 in if keeps_source clean_path source_path then
                      (if \<not> has_path files clean_path then
                         Inr (files @ [\<lparr>path = clean_path, content = cont,
                                        file_type = determine_file_type clean_path,
                                        source = ''sourcemap'',
                                        original_path = source_path\<rparr>])
                       else Inr files)
                    else Inr files)
            | _ \<Rightarrow> Inl AttributeError))"

text \<open>
  The loop itself. An exception leaves the loop; what was appended before stays in the
  ledger, and the exception is the one the enclosing \<open>except\<close> prints.
\<close>

fun embedded_loop :: "(json \<times> json) list \<Rightarrow> ledger \<Rightarrow> ledger \<times> py_error option" where
  "embedded_loop [] files = (files, None)"
| "embedded_loop ((src, cont) # rest) files =
     (case add_embedded src cont files of
        Inl e \<Rightarrow> (files, Some e)
      | Inr files' \<Rightarrow> embedded_loop rest files')"

text \<open>
  The branch taken when both keys are present: the two subscripts, \<open>len(sources)\<close> for the
  message, then \<open>zip\<close>, which stops at the shorter of its arguments.
\<close>

definition embedded_pairs :: "json \<Rightarrow> py_error + (json \<times> json) list" where
  "embedded_pairs source_map =
     try_bind (py_getitem source_map ''sources'') (\<lambda>sources.
     try_bind (py_getitem source_map ''sourcesContent'') (\<lambda>contents.
     try_bind (py_len sources) (\<lambda>n.
     try_bind (py_iter sources) (\<lambda>ss.
     try_bind (py_iter contents) (\<lambda>cs. Inr (zip ss cs))))))"

definition embedded_branch :: "json \<Rightarrow> ledger \<Rightarrow> ledger \<times> py_error option" where
  "embedded_branch source_map files =
     (case embedded_pairs source_map of
        Inl e \<Rightarrow> (files, Some e)
      | Inr pairs \<Rightarrow> embedded_loop pairs files)"

section \<open>The server, \<open>_fetch_from_webpack_dev_server\<close> and the branch without contents\<close>

text \<open>
  What the code takes from outside. \<open>session_get\<close> is \<open>self.session.get\<close>: from the state
  of the outside world and a URL it gives the status code and text of the response, or
  \<open>None\<close> when the request raises, and the next state of the world. \<open>quote\<close> is
  \<open>urllib.parse.quote\<close> with \<open>safe='/:'\<close>; \<open>json_loads\<close> is \<open>json.loads\<close>, \<open>None\<close> when it
  raises.
\<close>

record 'w env =
  base_url :: string
  session_get :: "'w \<Rightarrow> string \<Rightarrow> (nat \<times> string) option \<times> 'w"
  quote :: "string \<Rightarrow> string"
  json_loads :: "string \<Rightarrow> json option"

text \<open>The loop over \<open>possible_endpoints\<close>: the first response with status 200 is returned.\<close>

fun try_endpoints :: "'w env \<Rightarrow> string list \<Rightarrow> 'w \<Rightarrow> string option \<times> 'w" where
  "try_endpoints env [] w = (None, w)"
| "try_endpoints env (endpoint # rest) w =
     (case session_get env w (base_url env @ ''/'' @ quote env endpoint) of
        (None, w') \<Rightarrow> try_endpoints env rest w'
      | (Some (status_code, text), w') \<Rightarrow>
          if status_code = 200 then (Some text, w') else try_endpoints env rest w')"

definition fetch_from_webpack_dev_server :: "'w env \<Rightarrow> string \<Rightarrow> 'w \<Rightarrow> string option \<times> 'w" where
  "fetch_from_webpack_dev_server env webpack_path w =
     try_endpoints env
       [''__webpack_dev_server__/src/'' @ webpack_path,
        ''webpack://'' @ webpack_path,
        ''src/'' @ webpack_path,
        webpack_path] w"

text \<open>One iteration of the loop of the \<open>elif 'sources' in source_map\<close> branch.\<close>

definition add_fetched :: "'w env \<Rightarrow> json \<Rightarrow> 'w \<Rightarrow> ledger \<Rightarrow> (py_error + ledger) \<times> 'w" where
  "add_fetched env src w files =
     (case src of
        JStr source_path \<Rightarrow>
          (let clean_path = clean_source_path source_path
           in if clean_path \<noteq> [] \<and> \<not> sublist ''node_modules'' clean_path
                 \<and> \<not> has_path files clean_path then
                (case fetch_from_webpack_dev_server env source_path w of
                   (Some text, w') \<Rightarrow>
                     if text \<noteq> [] then
                       (Inr (files @ [\<lparr>path = clean_path, content = JStr text,
                                       file_type = determine_file_type clean_path,
                                       source = ''webpack-dev-server'',
                                       original_path = source_path\<rparr>]), w')
                     else (Inr files, w')
                 | (None, w') \<Rightarrow> (Inr files, w'))
              else (Inr files, w))
      | _ \<Rightarrow> (Inl AttributeError, w))"

fun dev_server_loop ::
  "'w env \<Rightarrow> json list \<Rightarrow> 'w \<Rightarrow> ledger \<Rightarrow> (ledger \<times> py_error option) \<times> 'w" where
  "dev_server_loop env [] w files = ((files, None), w)"
| "dev_server_loop env (src # rest) w files =
     (case add_fetched env src w files of
        (Inl e, w') \<Rightarrow> ((files, Some e), w')
      | (Inr files', w') \<Rightarrow> dev_server_loop env rest w' files')"

definition dev_server_branch ::
  "'w env \<Rightarrow> json \<Rightarrow> 'w \<Rightarrow> ledger \<Rightarrow> (ledger \<times> py_error option) \<times> 'w" where
  "dev_server_branch env source_map w files =
     (case try_bind (py_getitem source_map ''sources'') py_iter of
        Inl e \<Rightarrow> ((files, Some e), w)
      | Inr ss \<Rightarrow> dev_server_loop env ss w files)"

text \<open>
  The body of the \<open>try\<close> in \<open>_parse_source_map\<close> once \<open>json.loads\<close> has returned. The result
  is the ledger afterwards together with the exception caught by \<open>except Exception\<close>, if
  any. The \<open>elif\<close> evaluates \<open>'sources' in source_map\<close> a second time, with the same answer.
\<close>

definition parse_loaded ::
  "'w env \<Rightarrow> json \<Rightarrow> 'w \<Rightarrow> ledger \<Rightarrow> (ledger \<times> py_error option) \<times> 'w" where
  "parse_loaded env source_map w files =
     (case py_contains ''sources'' source_map of
        Inl e \<Rightarrow> ((files, Some e), w)
      | Inr has_sources \<Rightarrow>
          (case (if has_sources then py_contains ''sourcesContent'' source_map else Inr False) of
             Inl e \<Rightarrow> ((files, Some e), w)
           | Inr has_both \<Rightarrow>
               if has_both then (embedded_branch source_map files, w)
               else if has_sources then dev_server_branch env source_map w files
               else ((files, None), w)))"

text \<open>\<open>_parse_source_map\<close>; its parameter \<open>map_url\<close> is not used by the code.\<close>

definition parse_source_map ::
  "'w env \<Rightarrow> string \<Rightarrow> 'w \<Rightarrow> ledger \<Rightarrow> (ledger \<times> py_error option) \<times> 'w" where
  "parse_source_map env map_content w files =
     (case json_loads env map_content of
        None \<Rightarrow> ((files, Some JSONDecodeError), w)
      | Some source_map \<Rightarrow> parse_loaded env source_map w files)"

section \<open>\<open>_analyze_source_maps\<close>\<close>

text \<open>
  \<open>s.replace(old, new)\<close> for a non-empty \<open>old\<close> (both uses below): occurrences are replaced
  from left to right, without overlap.
\<close>

function replace :: "string \<Rightarrow> string \<Rightarrow> string \<Rightarrow> string" where
  "replace old new [] = []"
| "replace old new (c # cs) =
     (if old \<noteq> [] \<and> prefix old (c # cs)
      then new @ replace old new (drop (length old) (c # cs))
      else c # replace old new cs)"
  by pat_completeness auto
termination
  by (relation "measure (\<lambda>(old, new, s). length s)") auto

definition map_urls :: "string \<Rightarrow> string list" where
  "map_urls bundle_url =
     [bundle_url @ ''.map'',
      replace ''.css'' ''.css.map'' (replace ''.js'' ''.js.map'' bundle_url)]"

text \<open>
  The inner loop over \<open>map_urls\<close>: a request that raises, or answers with another status,
  moves on to the next URL; the first answer with status 200 is parsed and the loop is left.
  The exception that \<open>_parse_source_map\<close> caught has been printed there and is dropped.
\<close>

fun try_map_urls :: "'w env \<Rightarrow> string list \<Rightarrow> 'w \<Rightarrow> ledger \<Rightarrow> ledger \<times> 'w" where
  "try_map_urls env [] w files = (files, w)"
| "try_map_urls env (map_url # rest) w files =
     (case session_get env w map_url of
        (None, w') \<Rightarrow> try_map_urls env rest w' files
      | (Some (status_code, text), w') \<Rightarrow>
          if status_code = 200 then
            (case parse_source_map env text w' files of
               ((files', caught), w'') \<Rightarrow> (files', w''))
          else try_map_urls env rest w' files)"

text \<open>The outer loop over \<open>self.source_maps\<close>, the bundle URLs in the order they were found.\<close>

fun analyze_source_maps :: "'w env \<Rightarrow> string list \<Rightarrow> 'w \<Rightarrow> ledger \<Rightarrow> ledger \<times> 'w" where
  "analyze_source_maps env [] w files = (files, w)"
| "analyze_source_maps env (bundle_url # rest) w files =
     (case try_map_urls env (map_urls bundle_url) w files of
        (files', w') \<Rightarrow> analyze_source_maps env rest w' files')"

section \<open>A sample server\<close>

text \<open>
  A concrete server for the examples below. The state of the world counts the requests
  made so far. Two bundles have a map; the first map pairs \<open>b.js\<close> with a null content, the
  second repeats \<open>a.js\<close> with another content. Two more bundles are answered with a page
  that is not a map, one of them only at the second candidate URL.
\<close>

definition main_js_map :: string where
  \<open>main_js_map = ''{"sources":["a.js","b.js"],"sourcesContent":["contentA",null]}''\<close>

definition main_css_map :: string where
  \<open>main_css_map = ''{"sources":["a.js","c.css"],"sourcesContent":["other","body{}"]}''\<close>

definition mixed_map :: string where
  \<open>mixed_map = ''{"sources":["a.js",5],"sourcesContent":["x","y"]}''\<close>

definition long_sources_map :: string where
  \<open>long_sources_map = ''{"sources":["a.js","b.js","d.js"],"sourcesContent":["contentA"]}''\<close>

definition sample_loads :: "string \<Rightarrow> json option" where
  "sample_loads s =
     (if s = main_js_map then
        Some (JObj [(''sources'', JArr [JStr ''a.js'', JStr ''b.js'']),
                    (''sourcesContent'', JArr [JStr ''contentA'', JNull])])
      else if s = main_css_map then
        Some (JObj [(''sources'', JArr [JStr ''a.js'', JStr ''c.css'']),
                    (''sourcesContent'', JArr [JStr ''other'', JStr ''body{}''])])
      else if s = mixed_map then
        Some (JObj [(''sources'', JArr [JStr ''a.js'', JNum 5]),
                    (''sourcesContent'', JArr [JStr ''x'', JStr ''y''])])
      else if s = long_sources_map then
        Some (JObj [(''sources'', JArr [JStr ''a.js'', JStr ''b.js'', JStr ''d.js'']),
                    (''sourcesContent'', JArr [JStr ''contentA''])])
      else if s = ''{}'' then Some (JObj [])
      else None)"

definition sample_get :: "nat \<Rightarrow> string \<Rightarrow> (nat \<times> string) option \<times> nat" where
  "sample_get w url =
     (if url = ''http://localhost:3000/static/js/main.js.map'' then Some (200, main_js_map)
      else if url = ''http://localhost:3000/static/css/main.css.map'' then Some (200, main_css_map)
      else if url = ''http://localhost:3000/static/js/broken.js.map'' then Some (200, ''<html>'')
      else if url = ''http://localhost:3000/static/js/app.js.map?v=1'' then Some (200, ''<html>'')
      else Some (404, []),
      Suc w)"

definition sample_env :: "nat env" where
  "sample_env =
     \<lparr>base_url = ''http://localhost:3000'',
      session_get = sample_get,
      quote = (\<lambda>s. s),
      json_loads = sample_loads\<rparr>"

section \<open>The ledger as the specification describes it\<close>

text \<open>
  Following the specification (DiscoveryLedger, \<open>insert\<close>): a candidate whose path is new is
  accepted at the end of the ledger, a candidate whose path is present is dropped.
\<close>

definition ledger_insert :: "ledger \<Rightarrow> source_record \<Rightarrow> ledger" where
  "ledger_insert files r = (if path r \<in> set (map path files) then files else files @ [r])"

text \<open>
  Following the specification (MapRecordExtractor): the candidate of one entry of a map
  with contents, if the entry has a content and the filter of the code keeps it; and the
  candidates of the map, in the order of its entries.
\<close>

definition entry_candidate :: "json \<Rightarrow> json \<Rightarrow> source_record list" where
  "entry_candidate src cont =
     (case src of
        JStr source_path \<Rightarrow>
          if cont \<noteq> JNull \<and> keeps_source (clean_source_path source_path) source_path then
            [\<lparr>path = clean_source_path source_path, content = cont,
              file_type = determine_file_type (clean_source_path source_path),
              source = ''sourcemap'', original_path = source_path\<rparr>]
          else []
      | _ \<Rightarrow> [])"

definition candidate_records :: "(json \<times> json) list \<Rightarrow> source_record list" where
  "candidate_records pairs = concat (map (\<lambda>(src, cont). entry_candidate src cont) pairs)"

section \<open>Properties of path normalisation\<close>

lemma bare_name_passes_patterns:
  assumes "CHR ''/'' \<notin> set name"
  shows "handle_path_pattern (strip_webpack_prefix name) = name"
proof -
  have "\<not> prefix ''webpack://'' name"
    using assms by (auto simp: prefix_def)
  moreover have "\<not> prefix ''./'' name"
    using assms by (auto simp: prefix_def)
  ultimately show ?thesis
    using assms by (simp add: handle_path_pattern_def strip_webpack_prefix_def)
qed

lemma split_on_not_Nil: "split_on sep s \<noteq> []"
  by (induction s) (auto split: list.splits)

lemma split_on_no_sep:
  assumes "sep \<notin> set s"
  shows "split_on sep s = [s]"
  using assms by (induction s) auto

lemma last_split_on_append:
  "last (split_on sep (pre @ sep # s)) = last (split_on sep s)"
proof (induction pre)
  case Nil
  show ?case by (simp add: split_on_not_Nil)
next
  case (Cons c pre)
  show ?case
  proof (cases "c = sep")
    case True
    then show ?thesis using Cons.IH by (simp add: split_on_not_Nil)
  next
    case False
    obtain seg segs where sp: "split_on sep (pre @ sep # s) = seg # segs"
      using split_on_not_Nil [of sep "pre @ sep # s"] by (cases "split_on sep (pre @ sep # s)") auto
    have "segs \<noteq> []"
    proof
      assume "segs = []"
      then have "length (split_on sep (pre @ sep # s)) = 1" using sp by simp
      moreover have "length (split_on sep (xs @ sep # s)) > 1" for xs
        by (induction xs) (auto simp: split_on_not_Nil split: list.splits)
      ultimately show False by (metis less_irrefl)
    qed
    then show ?thesis using Cons.IH sp False by simp
  qed
qed

lemma join_split_on: "join [sep] (split_on sep s) = s"
proof (induction s)
  case Nil
  show ?case by simp
next
  case (Cons c s)
  obtain seg segs where sp: "split_on sep s = seg # segs"
    using split_on_not_Nil [of sep s] by (cases "split_on sep s") auto
  show ?case
  proof (cases "c = sep")
    case True
    then show ?thesis using Cons.IH sp by simp
  next
    case False
    then show ?thesis using Cons.IH sp by (cases segs) auto
  qed
qed

lemma set_last_split_on: "set (last (split_on sep s)) \<subseteq> set s - {sep}"
proof (induction s)
  case Nil
  show ?case by simp
next
  case (Cons c s)
  obtain seg segs where sp: "split_on sep s = seg # segs"
    using split_on_not_Nil [of sep s] by (cases "split_on sep s") auto
  show ?case
    using Cons.IH sp by (cases segs) auto
qed

lemma strip_webpack_prefix_tail:
  "strip_webpack_prefix p = p \<or> (\<exists>pre. p = pre @ CHR ''/'' # strip_webpack_prefix p)"
proof (cases "prefix ''webpack://'' p")
  case True
  then obtain rest where "p = ''webpack://'' @ rest" by (auto simp: prefix_def)
  then have "p = ''webpack:/'' @ CHR ''/'' # strip_webpack_prefix p"
    by (simp add: strip_webpack_prefix_def)
  then show ?thesis by blast
next
  case False
  then show ?thesis by (simp add: strip_webpack_prefix_def)
qed

lemma handle_path_pattern_tail:
  "handle_path_pattern p = p \<or> (\<exists>pre. p = pre @ CHR ''/'' # handle_path_pattern p)"
proof (cases "prefix ''./'' p")
  case True
  then obtain rest where "p = ''./'' @ rest" by (auto simp: prefix_def)
  then have "p = ''.'' @ CHR ''/'' # handle_path_pattern p"
    by (simp add: handle_path_pattern_def)
  then show ?thesis by blast
next
  case False
  show ?thesis
  proof (cases "CHR ''/'' \<in> set p \<and> skips_first_part (split_on CHR ''/'' p)")
    case True
    then obtain first second rest where parts: "split_on CHR ''/'' p = first # second # rest"
      by (cases "split_on CHR ''/'' p"; cases "tl (split_on CHR ''/'' p)")
         (auto simp: skips_first_part_def)
    have "p = join ''/'' (split_on CHR ''/'' p)"
      by (simp add: join_split_on)
    then have "p = first @ CHR ''/'' # join ''/'' (second # rest)"
      using parts by simp
    moreover have "handle_path_pattern p = join ''/'' (second # rest)"
      using True False parts by (simp add: handle_path_pattern_def)
    ultimately show ?thesis by metis
  next
    case not_skipped: False
    then show ?thesis using False by (auto simp: handle_path_pattern_def)
  qed
qed

lemma last_segment_kept:
  "last (split_on CHR ''/'' (handle_path_pattern (strip_webpack_prefix p)))
     = last (split_on CHR ''/'' p)"
proof -
  have "last (split_on CHR ''/'' (strip_webpack_prefix p)) = last (split_on CHR ''/'' p)"
    using strip_webpack_prefix_tail [of p] by (metis last_split_on_append)
  moreover have "last (split_on CHR ''/'' (handle_path_pattern q)) = last (split_on CHR ''/'' q)" for q
    using handle_path_pattern_tail [of q] by (metis last_split_on_append)
  ultimately show ?thesis by simp
qed

lemma dropWhile_weaker_again:
  assumes "\<And>x. Q x \<Longrightarrow> P x"
  shows "dropWhile Q (dropWhile P xs) = dropWhile P xs"
  using assms by (induction xs) auto

lemma strip_leading_eq:
  "strip_leading s = dropWhile (\<lambda>c. c = CHR ''.'' \<or> c = CHR ''/'') s"
proof -
  have "dropWhile (\<lambda>c. c = CHR ''/'') (dropWhile (\<lambda>c. c = CHR ''.'' \<or> c = CHR ''/'') s)
      = dropWhile (\<lambda>c. c = CHR ''.'' \<or> c = CHR ''/'') s"
    by (rule dropWhile_weaker_again) simp
  then show ?thesis
    by (simp add: strip_leading_def lstrip_def)
qed

lemma strip_leading_head:
  assumes "strip_leading s \<noteq> []"
  shows "hd (strip_leading s) \<noteq> CHR ''.'' \<and> hd (strip_leading s) \<noteq> CHR ''/''"
  using assms hd_dropWhile [of "\<lambda>c. c = CHR ''.'' \<or> c = CHR ''/''" s]
  by (simp add: strip_leading_eq)

lemma strip_leading_empty:
  "strip_leading s = [] \<longleftrightarrow> set s \<subseteq> {CHR ''.'', CHR ''/''}"
  by (auto simp: strip_leading_eq dropWhile_eq_Nil_conv)

lemma strip_leading_fixed:
  assumes "s \<noteq> []" and "hd s \<noteq> CHR ''.''" and "hd s \<noteq> CHR ''/''"
  shows "strip_leading s = s"
  using assms by (cases s) (simp_all add: strip_leading_eq)

lemma infer_folder_empty: "infer_folder s = [] \<longleftrightarrow> s = []"
  by (auto simp: infer_folder_def)

lemma infer_folder_head:
  assumes "s \<noteq> []" and "hd s \<noteq> CHR ''.''" and "hd s \<noteq> CHR ''/''"
  shows "hd (infer_folder s) \<noteq> CHR ''.'' \<and> hd (infer_folder s) \<noteq> CHR ''/''"
  using assms by (auto simp: infer_folder_def)

lemma infer_folder_idem: "infer_folder (infer_folder s) = infer_folder s"
  by (auto simp: infer_folder_def)

lemma cleaned_head:
  assumes "cleaned p \<noteq> []"
  shows "hd (cleaned p) \<noteq> CHR ''.'' \<and> hd (cleaned p) \<noteq> CHR ''/''"
proof -
  let ?x = "strip_leading (handle_path_pattern (strip_webpack_prefix p))"
  have "?x \<noteq> []"
    using assms by (simp add: cleaned_def infer_folder_empty)
  then show ?thesis
    using strip_leading_head [of "handle_path_pattern (strip_webpack_prefix p)"]
    by (simp add: cleaned_def infer_folder_head)
qed

lemma fallback_is_dots:
  assumes "cleaned p = []"
  shows "set (last (split_on CHR ''/'' p)) \<subseteq> {CHR ''.''}"
proof -
  let ?y = "handle_path_pattern (strip_webpack_prefix p)"
  have "strip_leading ?y = []"
    using assms by (simp add: cleaned_def infer_folder_empty)
  then have "set ?y \<subseteq> {CHR ''.'', CHR ''/''}"
    by (simp add: strip_leading_empty)
  moreover have "set (last (split_on CHR ''/'' ?y)) \<subseteq> set ?y - {CHR ''/''}"
    by (rule set_last_split_on)
  ultimately have "set (last (split_on CHR ''/'' ?y)) \<subseteq> {CHR ''.''}"
    by auto
  then show ?thesis
    by (simp add: last_segment_kept)
qed

lemma clean_source_path_shape:
  "(clean_source_path p = cleaned p \<and> cleaned p \<noteq> []
      \<and> hd (cleaned p) \<noteq> CHR ''.'' \<and> hd (cleaned p) \<noteq> CHR ''/'')
   \<or> (clean_source_path p = last (split_on CHR ''/'' p) \<and> cleaned p = []
      \<and> set (last (split_on CHR ''/'' p)) \<subseteq> {CHR ''.''})"
proof (cases "cleaned p = []")
  case True
  then show ?thesis
    using fallback_is_dots [OF True] by (simp add: clean_source_path_def)
next
  case False
  then show ?thesis
    using cleaned_head [OF False] by (simp add: clean_source_path_def)
qed




text \<open>
  Claim C3, as the code has it: the virtual path \<open>webpack://my-app/./src/App.js\<close> is
  normalised to \<open>my-app/./src/App.js\<close>. After the prefix is removed the path does not start
  with \<open>./\<close>, and its first segment \<open>my-app\<close> is neither one of \<open>src\<close>, \<open>.\<close>, \<open>..\<close> nor
  longer than 20 characters, so it is kept, with the \<open>./\<close> behind it.
\<close>

theorem clean_my_app_keeps_project_segment:
  "clean_source_path ''webpack://my-app/./src/App.js'' = ''my-app/./src/App.js''"
  by code_simp

text \<open>The result is not \<open>src/App.js\<close>.\<close>

theorem clean_my_app_is_not_src_app:
  "clean_source_path ''webpack://my-app/./src/App.js'' \<noteq> ''src/App.js''"
  by code_simp

text \<open>
  Claim C8: the bare file name \<open>App.tsx\<close> is normalised to \<open>src/App.tsx\<close>, and every file
  name without a separator that starts with \<open>App.\<close> or \<open>index.\<close> is placed under \<open>src/\<close>.
\<close>

theorem bare_entry_file_goes_under_src:
  "clean_source_path ''App.tsx'' = ''src/App.tsx'' \<and>
   (\<forall>name. CHR ''/'' \<notin> set name \<and> startswith_any name [''App.'', ''index.'']
      \<longrightarrow> clean_source_path name = ''src/'' @ name)"
proof (intro conjI allI impI)
  show "clean_source_path ''App.tsx'' = ''src/App.tsx''"
    by code_simp
next
  fix name
  assume h: "CHR ''/'' \<notin> set name \<and> startswith_any name [''App.'', ''index.'']"
  then have bare: "CHR ''/'' \<notin> set name" and start: "startswith_any name [''App.'', ''index.'']"
    by simp_all
  from start obtain c cs where name: "name = c # cs" and c: "c = CHR ''A'' \<or> c = CHR ''i''"
    by (auto simp: startswith_any_def prefix_def)
  have "strip_leading name = name"
    using name c by (auto simp: strip_leading_def lstrip_def)
  then have "cleaned name = ''src/'' @ name"
    using bare start name by (simp add: cleaned_def bare_name_passes_patterns infer_folder_def)
  then show "clean_source_path name = ''src/'' @ name"
    by (simp add: clean_source_path_def)
qed

theorem bare_entry_file_goes_under_src_witness:
  "clean_source_path ''index.js'' = ''src/index.js''"
  using bare_entry_file_goes_under_src by (simp add: startswith_any_def)

lemma split_on_first_segment:
  assumes "sep \<notin> set f"
  shows "split_on sep (f @ sep # rest) = f # split_on sep rest"
  using assms by (induction f) auto

lemma first_segment_unique:
  assumes "sep \<notin> set a" and "sep \<notin> set b" and "a @ sep # u = b @ sep # v"
  shows "a = b \<and> u = v"
proof -
  have "takeWhile (\<lambda>c. c \<noteq> sep) (a @ sep # u) = a"
    using assms(1) by (induction a) auto
  moreover have "takeWhile (\<lambda>c. c \<noteq> sep) (b @ sep # v) = b"
    using assms(2) by (induction b) auto
  ultimately have "a = b" using assms(3) by simp
  then show ?thesis using assms(3) by simp
qed

lemma handle_path_pattern_segments:
  assumes "\<not> prefix ''./'' (f @ CHR ''/'' # rest)" and "CHR ''/'' \<notin> set f"
  shows "handle_path_pattern (f @ CHR ''/'' # rest) =
           (if skips_first_part (split_on CHR ''/'' (f @ CHR ''/'' # rest)) then rest
            else f @ CHR ''/'' # rest)"
  using assms
  by (simp add: handle_path_pattern_def split_on_first_segment join_split_on)

lemma handle_path_pattern_suffix: "suffix (handle_path_pattern s) s"
  using handle_path_pattern_tail [of s]
  by (metis append_Cons append_Nil append_assoc suffixI suffix_order.refl)

lemma strip_webpack_prefix_suffix: "suffix (strip_webpack_prefix s) s"
  using strip_webpack_prefix_tail [of s]
  by (metis append_Cons append_Nil append_assoc suffixI suffix_order.refl)

lemma strip_leading_suffix: "suffix (strip_leading s) s"
  by (simp add: strip_leading_eq suffix_dropWhile)

lemma infer_folder_cases:
  "infer_folder x = x
   \<or> (x \<noteq> [] \<and> CHR ''/'' \<notin> set x
      \<and> ((startswith_any x [''App.'', ''index.''] \<and> infer_folder x = ''src/'' @ x)
         \<or> infer_folder x = ''src/components/'' @ x
         \<or> infer_folder x = ''src/styles/'' @ x))"
  by (auto simp: infer_folder_def)

text \<open>A second pass that shortens the path can only give it back through the inference.\<close>

lemma fixed_after_shortening:
  assumes slash: "CHR ''/'' \<in> set r"
    and x: "x = strip_leading (handle_path_pattern (strip_webpack_prefix r))"
    and short: "length x < length r"
    and fixed: "clean_source_path r = r"
  shows "x \<noteq> [] \<and> CHR ''/'' \<notin> set x
      \<and> ((startswith_any x [''App.'', ''index.''] \<and> r = ''src/'' @ x)
         \<or> r = ''src/components/'' @ x
         \<or> r = ''src/styles/'' @ x)"
proof -
  have cl: "cleaned r = infer_folder x"
    using x by (simp add: cleaned_def)
  have "cleaned r \<noteq> []"
  proof
    assume "cleaned r = []"
    then have "r = last (split_on CHR ''/'' r)"
      using fixed by (simp add: clean_source_path_def)
    then have "set r \<subseteq> set r - {CHR ''/''}"
      using set_last_split_on [of "CHR ''/''" r] by simp
    then show False using slash by auto
  qed
  then have "infer_folder x = r"
    using fixed cl by (simp add: clean_source_path_def)
  moreover have "infer_folder x \<noteq> x"
    using calculation short by auto
  ultimately show ?thesis
    using infer_folder_cases [of x] by auto
qed

text \<open>
  Claim C10, as the code has it. Write \<open>r\<close> for the normalised form \<open>clean_source_path p\<close>
  of an input \<open>p\<close>. A second pass gives \<open>r\<close> back exactly when \<open>r\<close> does not start with
  \<open>webpack://\<close> and either the first segment of \<open>r\<close> is not one the code skips as a project
  name, or \<open>r\<close> is \<open>src/\<close> followed by a file name without separator that starts with
  \<open>App.\<close> or \<open>index.\<close> (the skipped \<open>src\<close> is then put back by the folder inference).
\<close>

theorem clean_source_path_idempotent_iff:
  "clean_source_path (clean_source_path p) = clean_source_path p
   \<longleftrightarrow> (\<not> prefix ''webpack://'' (clean_source_path p)
        \<and> (\<not> skips_first_part (split_on CHR ''/'' (clean_source_path p))
           \<or> (\<exists>name. clean_source_path p = ''src/'' @ name \<and> CHR ''/'' \<notin> set name
                 \<and> startswith_any name [''App.'', ''index.''])))"
proof -
  let ?r = "clean_source_path p"
  let ?special = "\<exists>name. ?r = ''src/'' @ name \<and> CHR ''/'' \<notin> set name
                 \<and> startswith_any name [''App.'', ''index.'']"
  from clean_source_path_shape [of p] show ?thesis
  proof
    assume b: "?r = last (split_on CHR ''/'' p) \<and> cleaned p = []
      \<and> set (last (split_on CHR ''/'' p)) \<subseteq> {CHR ''.''}"
    then have dots: "set ?r \<subseteq> {CHR ''.''}"
      by simp
    then have no_slash: "CHR ''/'' \<notin> set ?r"
      by auto
    have "handle_path_pattern (strip_webpack_prefix ?r) = ?r"
      using no_slash by (rule bare_name_passes_patterns)
    moreover have "strip_leading ?r = []"
      using dots by (auto simp: strip_leading_empty)
    ultimately have "cleaned ?r = []"
      by (simp add: cleaned_def infer_folder_def)
    then have "clean_source_path ?r = ?r"
      using no_slash by (simp add: clean_source_path_def [of ?r] split_on_no_sep)
    moreover have "\<not> prefix ''webpack://'' ?r"
      using no_slash by (auto simp: prefix_def)
    moreover have "\<not> skips_first_part (split_on CHR ''/'' ?r)"
      using no_slash by (simp add: split_on_no_sep skips_first_part_def)
    ultimately show ?thesis by simp
  next
    assume a: "?r = cleaned p \<and> cleaned p \<noteq> []
      \<and> hd (cleaned p) \<noteq> CHR ''.'' \<and> hd (cleaned p) \<noteq> CHR ''/''"
    then have r: "?r \<noteq> []" "hd ?r \<noteq> CHR ''.''" "hd ?r \<noteq> CHR ''/''"
      by simp_all
    have not_rel: "\<not> prefix ''./'' ?r"
      using r by (cases ?r) auto
    have inf: "infer_folder ?r = ?r"
      using a by (simp add: cleaned_def infer_folder_idem)
    show ?thesis
    proof (cases "prefix ''webpack://'' ?r")
      case True
      then obtain z where z: "?r = ''webpack://'' @ z"
        by (auto simp: prefix_def)
      define x where "x = strip_leading (handle_path_pattern (strip_webpack_prefix ?r))"
      have "strip_webpack_prefix ?r = z"
        using z by (simp add: strip_webpack_prefix_def)
      then have "suffix x z"
        unfolding x_def
        using strip_leading_suffix [of "handle_path_pattern z"] handle_path_pattern_suffix [of z]
        by (auto intro: suffix_order.trans)
      then have "length x \<le> length z"
        by (rule suffix_length_le)
      then have short: "length x < length ?r"
        by (subst z) simp
      have slash: "CHR ''/'' \<in> set ?r"
        by (subst z) simp
      have "clean_source_path ?r \<noteq> ?r"
      proof
        assume "clean_source_path ?r = ?r"
        from fixed_after_shortening [OF slash x_def short this]
        have "hd ?r = CHR ''s''" by auto
        moreover have "hd ?r = CHR ''w''"
          by (subst z) simp
        ultimately show False by simp
      qed
      then show ?thesis using True by simp
    next
      case False
      then have sw: "strip_webpack_prefix ?r = ?r"
        by (simp add: strip_webpack_prefix_def)
      show ?thesis
      proof (cases "skips_first_part (split_on CHR ''/'' ?r)")
        case not_skipped: False
        have "handle_path_pattern ?r = ?r"
          using not_rel not_skipped by (simp add: handle_path_pattern_def)
        moreover have "strip_leading ?r = ?r"
          using r by (rule strip_leading_fixed)
        ultimately have "cleaned ?r = ?r"
          using sw inf by (simp add: cleaned_def)
        then have "clean_source_path ?r = ?r"
          using r(1) by (simp add: clean_source_path_def [of ?r])
        then show ?thesis using False not_skipped by simp
      next
        case skipped: True
        have slash: "CHR ''/'' \<in> set ?r"
        proof (rule ccontr)
          assume "CHR ''/'' \<notin> set ?r"
          then show False
            using skipped by (simp add: split_on_no_sep skips_first_part_def)
        qed
        then obtain f rest where dec: "?r = f @ CHR ''/'' # rest" and f: "CHR ''/'' \<notin> set f"
          by (metis split_list_first)
        have hp: "handle_path_pattern ?r = rest"
          using handle_path_pattern_segments [of f rest] not_rel skipped f dec by simp
        define x where "x = strip_leading (handle_path_pattern (strip_webpack_prefix ?r))"
        have xr: "x = strip_leading rest"
          using hp sw by (simp add: x_def)
        have "length x \<le> length rest"
          using strip_leading_suffix [of rest] xr by (simp add: suffix_length_le)
        then have short: "length x < length ?r"
          by (subst dec) simp
        have "clean_source_path ?r = ?r \<longleftrightarrow> ?special"
        proof
          assume "clean_source_path ?r = ?r"
          from fixed_after_shortening [OF slash x_def short this]
          have bare: "x \<noteq> []" "CHR ''/'' \<notin> set x"
            and forms: "(startswith_any x [''App.'', ''index.''] \<and> ?r = ''src/'' @ x)
                \<or> ?r = ''src/components/'' @ x \<or> ?r = ''src/styles/'' @ x"
            by simp_all
          from forms show ?special
          proof (elim disjE)
            assume "startswith_any x [''App.'', ''index.''] \<and> ?r = ''src/'' @ x"
            then show ?special using bare by blast
          next
            assume "?r = ''src/components/'' @ x"
            then have "f @ CHR ''/'' # rest = ''src'' @ CHR ''/'' # (''components/'' @ x)"
              using dec by simp
            then have "rest = ''components/'' @ x"
              using first_segment_unique [of "CHR ''/''" f "''src''" rest "''components/'' @ x"] f
              by simp
            then have "strip_leading rest = rest" and "length rest = 11 + length x"
              by (simp_all add: strip_leading_eq)
            then have "length x = 11 + length x"
              using xr by metis
            then show ?special by simp
          next
            assume "?r = ''src/styles/'' @ x"
            then have "f @ CHR ''/'' # rest = ''src'' @ CHR ''/'' # (''styles/'' @ x)"
              using dec by simp
            then have "rest = ''styles/'' @ x"
              using first_segment_unique [of "CHR ''/''" f "''src''" rest "''styles/'' @ x"] f
              by simp
            then have "strip_leading rest = rest" and "length rest = 7 + length x"
              by (simp_all add: strip_leading_eq)
            then have "length x = 7 + length x"
              using xr by metis
            then show ?special by simp
          qed
        next
          assume ?special
          then obtain name where name: "?r = ''src/'' @ name" "CHR ''/'' \<notin> set name"
              "startswith_any name [''App.'', ''index.'']"
            by blast
          then have "f @ CHR ''/'' # rest = ''src'' @ CHR ''/'' # name"
            using dec by simp
          then have "rest = name"
            using first_segment_unique [of "CHR ''/''" f "''src''" rest name] f by simp
          from name(3) obtain c cs where "name = c # cs" "c = CHR ''A'' \<or> c = CHR ''i''"
            by (auto simp: startswith_any_def prefix_def)
          then have "strip_leading name = name"
            by (auto simp: strip_leading_eq)
          then have "cleaned ?r = infer_folder name"
            using hp sw \<open>rest = name\<close> by (simp add: cleaned_def)
          also have "\<dots> = ''src/'' @ name"
            using name \<open>name = c # cs\<close> by (simp add: infer_folder_def)
          finally have "cleaned ?r = ?r"
            using name(1) by simp
          then show "clean_source_path ?r = ?r"
            using r(1) by (simp add: clean_source_path_def [of ?r])
        qed
        then show ?thesis using False skipped by simp
      qed
    qed
  qed
qed

text \<open>
  \<open>component.js\<close> becomes \<open>src/components/component.js\<close>, whose first segment \<open>src\<close> the
  second pass skips.
\<close>

theorem clean_source_path_not_idempotent:
  "clean_source_path (clean_source_path ''component.js'') \<noteq> clean_source_path ''component.js''"
  by code_simp

theorem clean_source_path_idempotent_iff_witness:
  "clean_source_path (clean_source_path ''webpack://my-app/./src/App.js'')
     = clean_source_path ''webpack://my-app/./src/App.js''
   \<and> clean_source_path (clean_source_path ''App.tsx'') = clean_source_path ''App.tsx''
   \<and> clean_source_path (clean_source_path ''src/index.js'') = clean_source_path ''src/index.js''"
proof -
  have r1: "clean_source_path ''webpack://my-app/./src/App.js'' = ''my-app/./src/App.js''"
    by code_simp
  have k1: "\<not> prefix ''webpack://'' ''my-app/./src/App.js''"
    by simp
  have k2: "\<not> skips_first_part (split_on CHR ''/'' ''my-app/./src/App.js'')"
    by code_simp
  have first: "clean_source_path (clean_source_path ''webpack://my-app/./src/App.js'')
     = clean_source_path ''webpack://my-app/./src/App.js''"
    using clean_source_path_idempotent_iff [of "''webpack://my-app/./src/App.js''"] r1 k1 k2 by simp
  have r2: "clean_source_path ''App.tsx'' = ''src/'' @ ''App.tsx''"
    by code_simp
  have n2: "CHR ''/'' \<notin> set ''App.tsx''" "startswith_any ''App.tsx'' [''App.'', ''index.'']"
    by (simp_all add: startswith_any_def)
  have w2: "\<not> prefix ''webpack://'' (clean_source_path ''App.tsx'')"
    using r2 by simp
  have second: "clean_source_path (clean_source_path ''App.tsx'') = clean_source_path ''App.tsx''"
    using clean_source_path_idempotent_iff [of "''App.tsx''"] r2 n2 w2 by blast
  have r3: "clean_source_path ''src/index.js'' = ''src/'' @ ''index.js''"
    by code_simp
  have n3: "CHR ''/'' \<notin> set ''index.js''" "startswith_any ''index.js'' [''App.'', ''index.'']"
    by (simp_all add: startswith_any_def)
  have w3: "\<not> prefix ''webpack://'' (clean_source_path ''src/index.js'')"
    using r3 by simp
  have third: "clean_source_path (clean_source_path ''src/index.js'') = clean_source_path ''src/index.js''"
    using clean_source_path_idempotent_iff [of "''src/index.js''"] r3 n3 w3 by blast
  show ?thesis
    using first second third by blast
qed

section \<open>Properties of \<open>_parse_source_map\<close>\<close>

lemma parse_loaded_both_keys:
  assumes "map_of kvs ''sources'' = Some v1" and "map_of kvs ''sourcesContent'' = Some v2"
  shows "parse_loaded env (JObj kvs) w files = (embedded_branch (JObj kvs) files, w)"
proof -
  have "''sources'' \<in> set (map fst kvs)" and "''sourcesContent'' \<in> set (map fst kvs)"
    using assms by (auto dest!: map_of_SomeD intro: rev_image_eqI)
  then show ?thesis
    by (simp add: parse_loaded_def)
qed

lemma embedded_loop_skips_null:
  "embedded_loop (filter (\<lambda>(src, cont). cont \<noteq> JNull) pairs) files = embedded_loop pairs files"
proof (induction pairs arbitrary: files)
  case Nil
  show ?case by simp
next
  case (Cons p pairs)
  obtain src cont where p: "p = (src, cont)" by (cases p)
  show ?case
  proof (cases "cont = JNull")
    case True
    then show ?thesis using Cons.IH p by (simp add: add_embedded_def)
  next
    case False
    then show ?thesis using Cons.IH p by (simp split: sum.splits)
  qed
qed

subsection \<open>Every loop only appends, in the order of the entries, and keeps paths distinct\<close>

lemma has_path_iff: "has_path files p \<longleftrightarrow> p \<in> set (map path files)"
  by (auto simp: has_path_def list_ex_iff)

lemma add_embedded_cases:
  assumes "add_embedded src cont files = Inr files'"
  shows "files' = files \<or>
         (\<exists>r. files' = files @ [r] \<and> path r \<notin> set (map path files)
              \<and> src = JStr (original_path r) \<and> cont = content r)"
  using assms
  by (auto simp: add_embedded_def Let_def has_path_iff split: if_splits json.splits)

lemma add_fetched_cases:
  assumes "add_fetched env src w files = (Inr files', w')"
  shows "files' = files \<or>
         (\<exists>r. files' = files @ [r] \<and> path r \<notin> set (map path files)
              \<and> src = JStr (original_path r))"
  using assms
  by (auto simp: add_fetched_def Let_def has_path_iff
           split: if_splits json.splits prod.splits option.splits)

lemma embedded_loop_appends:
  "\<exists>ys. fst (embedded_loop pairs files) = files @ ys
        \<and> subseq (map (\<lambda>r. (JStr (original_path r), content r)) ys) pairs"
proof (induction pairs arbitrary: files)
  case Nil
  show ?case by simp
next
  case (Cons p pairs)
  obtain src cont where p: "p = (src, cont)" by (cases p)
  show ?case
  proof (cases "add_embedded src cont files")
    case (Inl e)
    then show ?thesis using p by simp
  next
    case (Inr files')
    from Cons.IH [of files'] obtain ys where
      ys: "fst (embedded_loop pairs files') = files' @ ys"
          "subseq (map (\<lambda>r. (JStr (original_path r), content r)) ys) pairs"
      by blast
    from add_embedded_cases [OF Inr] show ?thesis
    proof
      assume "files' = files"
      then show ?thesis using ys p Inr by (auto intro: subseq_Cons')
    next
      assume "\<exists>r. files' = files @ [r] \<and> path r \<notin> set (map path files)
              \<and> src = JStr (original_path r) \<and> cont = content r"
      then obtain r where r: "files' = files @ [r]" "src = JStr (original_path r)" "cont = content r"
        by blast
      have "fst (embedded_loop (p # pairs) files) = files @ (r # ys)"
        using ys r p Inr by simp
      moreover have "subseq (map (\<lambda>r. (JStr (original_path r), content r)) (r # ys)) (p # pairs)"
        using ys r p by simp
      ultimately show ?thesis by blast
    qed
  qed
qed

lemma embedded_loop_distinct:
  assumes "distinct (map path files)"
  shows "distinct (map path (fst (embedded_loop pairs files)))"
  using assms
proof (induction pairs arbitrary: files)
  case Nil
  then show ?case by simp
next
  case (Cons p pairs)
  obtain src cont where p: "p = (src, cont)" by (cases p)
  show ?case
  proof (cases "add_embedded src cont files")
    case (Inl e)
    then show ?thesis using p Cons.prems by simp
  next
    case (Inr files')
    have "distinct (map path files')"
      using add_embedded_cases [OF Inr] Cons.prems by auto
    then show ?thesis using Cons.IH [of files'] p Inr by simp
  qed
qed

lemma dev_server_loop_appends:
  "\<exists>ys. fst (fst (dev_server_loop env ss w files)) = files @ ys
        \<and> subseq (map (\<lambda>r. JStr (original_path r)) ys) ss"
proof (induction ss arbitrary: w files)
  case Nil
  show ?case by simp
next
  case (Cons src ss)
  obtain res w' where step: "add_fetched env src w files = (res, w')"
    by (cases "add_fetched env src w files")
  show ?case
  proof (cases res)
    case (Inl e)
    then show ?thesis using step by simp
  next
    case (Inr files')
    from Cons.IH [of w' files'] obtain ys where
      ys: "fst (fst (dev_server_loop env ss w' files')) = files' @ ys"
          "subseq (map (\<lambda>r. JStr (original_path r)) ys) ss"
      by blast
    from add_fetched_cases [of env src w files files' w'] step Inr
    have "files' = files \<or>
         (\<exists>r. files' = files @ [r] \<and> path r \<notin> set (map path files)
              \<and> src = JStr (original_path r))" by simp
    then show ?thesis
    proof
      assume "files' = files"
      then show ?thesis using ys step Inr by (auto intro: subseq_Cons')
    next
      assume "\<exists>r. files' = files @ [r] \<and> path r \<notin> set (map path files)
              \<and> src = JStr (original_path r)"
      then obtain r where r: "files' = files @ [r]" "src = JStr (original_path r)"
        by blast
      have "fst (fst (dev_server_loop env (src # ss) w files)) = files @ (r # ys)"
        using ys r step Inr by simp
      moreover have "subseq (map (\<lambda>r. JStr (original_path r)) (r # ys)) (src # ss)"
        using ys r by simp
      ultimately show ?thesis by blast
    qed
  qed
qed

lemma dev_server_loop_distinct:
  assumes "distinct (map path files)"
  shows "distinct (map path (fst (fst (dev_server_loop env ss w files))))"
  using assms
proof (induction ss arbitrary: w files)
  case Nil
  then show ?case by simp
next
  case (Cons src ss)
  obtain res w' where step: "add_fetched env src w files = (res, w')"
    by (cases "add_fetched env src w files")
  show ?case
  proof (cases res)
    case (Inl e)
    then show ?thesis using step Cons.prems by simp
  next
    case (Inr files')
    have "distinct (map path files')"
      using add_fetched_cases [of env src w files files' w'] step Inr Cons.prems by auto
    then show ?thesis using Cons.IH [of files' w'] step Inr by simp
  qed
qed


lemma embedded_branch_appends:
  "\<exists>ys. fst (embedded_branch m files) = files @ ys
        \<and> (\<forall>ss. try_bind (py_getitem m ''sources'') py_iter = Inr ss
               \<longrightarrow> subseq (map (\<lambda>r. JStr (original_path r)) ys) ss)"
proof (cases "embedded_pairs m")
  case (Inl e)
  then show ?thesis by (simp add: embedded_branch_def)
next
  case (Inr pairs)
  from embedded_loop_appends [of pairs files] obtain ys where
    ys: "fst (embedded_loop pairs files) = files @ ys"
        "subseq (map (\<lambda>r. (JStr (original_path r), content r)) ys) pairs"
    by blast
  have "subseq (map fst (map (\<lambda>r. (JStr (original_path r), content r)) ys)) (map fst pairs)"
    using ys(2) by (rule subseq_map)
  then have sub: "subseq (map (\<lambda>r. JStr (original_path r)) ys) (map fst pairs)"
    by (simp add: comp_def)
  have "subseq (map (\<lambda>r. JStr (original_path r)) ys) ss"
    if "try_bind (py_getitem m ''sources'') py_iter = Inr ss" for ss
  proof -
    from Inr that obtain cs where "pairs = zip ss cs"
      by (auto simp: embedded_pairs_def try_bind_def split: sum.splits)
    then have "subseq (map fst pairs) ss"
      by (simp add: map_fst_zip_take prefix_imp_subseq take_is_prefix)
    with sub show ?thesis
      by (rule subseq_order.trans)
  qed
  then show ?thesis
    using ys(1) Inr by (auto simp: embedded_branch_def)
qed

lemma embedded_branch_distinct:
  assumes "distinct (map path files)"
  shows "distinct (map path (fst (embedded_branch m files)))"
  using assms by (auto simp: embedded_branch_def embedded_loop_distinct split: sum.splits)

lemma dev_server_branch_appends:
  "\<exists>ys. fst (fst (dev_server_branch env m w files)) = files @ ys
        \<and> (\<forall>ss. try_bind (py_getitem m ''sources'') py_iter = Inr ss
               \<longrightarrow> subseq (map (\<lambda>r. JStr (original_path r)) ys) ss)"
proof (cases "try_bind (py_getitem m ''sources'') py_iter")
  case (Inl e)
  then show ?thesis by (simp add: dev_server_branch_def)
next
  case (Inr ss)
  from dev_server_loop_appends [of env ss w files] show ?thesis
    using Inr by (simp add: dev_server_branch_def)
qed

lemma dev_server_branch_distinct:
  assumes "distinct (map path files)"
  shows "distinct (map path (fst (fst (dev_server_branch env m w files))))"
  using assms by (auto simp: dev_server_branch_def dev_server_loop_distinct split: sum.splits)

lemma parse_loaded_appends:
  "\<exists>ys. fst (fst (parse_loaded env m w files)) = files @ ys
        \<and> (\<forall>ss. try_bind (py_getitem m ''sources'') py_iter = Inr ss
               \<longrightarrow> subseq (map (\<lambda>r. JStr (original_path r)) ys) ss)"
  using embedded_branch_appends [of m files] dev_server_branch_appends [of env m w files]
  by (auto simp: parse_loaded_def split: sum.splits)

lemma parse_loaded_distinct:
  assumes "distinct (map path files)"
  shows "distinct (map path (fst (fst (parse_loaded env m w files))))"
  using assms
  by (auto simp: parse_loaded_def embedded_branch_distinct dev_server_branch_distinct
           split: sum.splits)

lemma parse_source_map_appends:
  "\<exists>ys. fst (fst (parse_source_map env payload w files)) = files @ ys"
  using parse_loaded_appends [of env _ w files]
  by (auto simp: parse_source_map_def split: option.splits)

lemma parse_source_map_distinct:
  assumes "distinct (map path files)"
  shows "distinct (map path (fst (fst (parse_source_map env payload w files))))"
  using assms by (auto simp: parse_source_map_def parse_loaded_distinct split: option.splits)

lemma parse_source_map_result_appends:
  assumes "parse_source_map env payload w files = ((files', caught), w')"
  shows "\<exists>ys. files' = files @ ys"
  using parse_source_map_appends [of env payload w files] assms by simp

lemma parse_source_map_result_distinct:
  assumes "parse_source_map env payload w files = ((files', caught), w')"
    and "distinct (map path files)"
  shows "distinct (map path files')"
  using parse_source_map_distinct [OF assms(2), of env payload w] assms(1) by simp

lemma try_map_urls_appends:
  "\<exists>ys. fst (try_map_urls env urls w files) = files @ ys"
proof (induction urls arbitrary: w)
  case Nil
  show ?case by simp
next
  case (Cons u urls)
  show ?case
    using Cons.IH
    by (auto split: prod.splits option.splits dest: parse_source_map_result_appends)
qed

lemma try_map_urls_distinct:
  assumes "distinct (map path files)"
  shows "distinct (map path (fst (try_map_urls env urls w files)))"
proof (induction urls arbitrary: w)
  case Nil
  show ?case using assms by simp
next
  case (Cons u urls)
  show ?case
    using Cons.IH assms
    by (auto split: prod.splits option.splits dest: parse_source_map_result_distinct)
qed

lemma analyze_source_maps_appends:
  "\<exists>ys. fst (analyze_source_maps env bundles w files) = files @ ys"
proof (induction bundles arbitrary: w files)
  case Nil
  show ?case by simp
next
  case (Cons b bundles)
  obtain files' w' where step: "try_map_urls env (map_urls b) w files = (files', w')"
    by (cases "try_map_urls env (map_urls b) w files")
  from try_map_urls_appends [of env "map_urls b" w files] step
  obtain ys where "files' = files @ ys" by auto
  moreover from Cons.IH [of w' files']
  obtain zs where "fst (analyze_source_maps env bundles w' files') = files' @ zs" by blast
  ultimately show ?case using step by simp
qed

lemma analyze_source_maps_distinct:
  assumes "distinct (map path files)"
  shows "distinct (map path (fst (analyze_source_maps env bundles w files)))"
  using assms
proof (induction bundles arbitrary: w files)
  case Nil
  then show ?case by simp
next
  case (Cons b bundles)
  obtain files' w' where step: "try_map_urls env (map_urls b) w files = (files', w')"
    by (cases "try_map_urls env (map_urls b) w files")
  have "distinct (map path files')"
    using try_map_urls_distinct [OF Cons.prems, of env "map_urls b" w] step by simp
  then show ?case using Cons.IH [of files' w'] step by simp
qed

lemma analyze_source_maps_append:
  "analyze_source_maps env (bs1 @ bs2) w files =
     (case analyze_source_maps env bs1 w files of
        (files1, w1) \<Rightarrow> analyze_source_maps env bs2 w1 files1)"
  by (induction bs1 arbitrary: w files) (auto split: prod.splits)

subsection \<open>The filter and the pairing of sources with contents\<close>

text \<open>
  Claim C1, at the input of the specification's scenarios B and E: a map whose sources are
  \<open>webpack://my-app/node_modules/react/index.js\<close> and \<open>multi ./src/index.js\<close>, both with
  content, parsed into an empty ledger. Neither source contains a dev-server marker, so
  the last disjunct of the condition holds and both entries are appended.
\<close>

theorem vendor_and_multi_entries_are_appended:
  "parse_loaded env
     (JObj [(''sources'', JArr [JStr ''webpack://my-app/node_modules/react/index.js'',
                                JStr ''multi ./src/index.js'']),
            (''sourcesContent'', JArr [JStr ''x'', JStr ''y''])]) w []
   = (([\<lparr>path = ''my-app/node_modules/react/index.js'', content = JStr ''x'',
          file_type = ''js'', source = ''sourcemap'',
          original_path = ''webpack://my-app/node_modules/react/index.js''\<rparr>,
        \<lparr>path = ''multi ./src/index.js'', content = JStr ''y'',
          file_type = ''js'', source = ''sourcemap'',
          original_path = ''multi ./src/index.js''\<rparr>], None), w)"
proof -
  have "embedded_branch
     (JObj [(''sources'', JArr [JStr ''webpack://my-app/node_modules/react/index.js'',
                                JStr ''multi ./src/index.js'']),
            (''sourcesContent'', JArr [JStr ''x'', JStr ''y''])]) []
   = ([\<lparr>path = ''my-app/node_modules/react/index.js'', content = JStr ''x'',
          file_type = ''js'', source = ''sourcemap'',
          original_path = ''webpack://my-app/node_modules/react/index.js''\<rparr>,
        \<lparr>path = ''multi ./src/index.js'', content = JStr ''y'',
          file_type = ''js'', source = ''sourcemap'',
          original_path = ''multi ./src/index.js''\<rparr>], None)"
    by code_simp
  then show ?thesis
    by (simp add: parse_loaded_both_keys)
qed

text \<open>
  Claim C7: an entry paired with a null content produces no record (the loop gives the same
  result as on the pairs with a content), and the map with sources \<open>a.js\<close>, \<open>b.js\<close> and
  contents \<open>contentA\<close>, null, parsed into an empty ledger, yields exactly one record, for
  \<open>a.js\<close> with content \<open>contentA\<close>, and raises nothing.
\<close>

theorem null_content_produces_no_record:
  "(\<forall>pairs files. embedded_loop pairs files =
       embedded_loop (filter (\<lambda>(src, cont). cont \<noteq> JNull) pairs) files)
   \<and> parse_loaded env
        (JObj [(''sources'', JArr [JStr ''a.js'', JStr ''b.js'']),
               (''sourcesContent'', JArr [JStr ''contentA'', JNull])]) w []
      = (([\<lparr>path = ''a.js'', content = JStr ''contentA'', file_type = ''js'',
             source = ''sourcemap'', original_path = ''a.js''\<rparr>], None), w)"
proof (intro conjI allI)
  have "embedded_branch
        (JObj [(''sources'', JArr [JStr ''a.js'', JStr ''b.js'']),
               (''sourcesContent'', JArr [JStr ''contentA'', JNull])]) []
      = ([\<lparr>path = ''a.js'', content = JStr ''contentA'', file_type = ''js'',
             source = ''sourcemap'', original_path = ''a.js''\<rparr>], None)"
    by code_simp
  then show "parse_loaded env
        (JObj [(''sources'', JArr [JStr ''a.js'', JStr ''b.js'']),
               (''sourcesContent'', JArr [JStr ''contentA'', JNull])]) w []
      = (([\<lparr>path = ''a.js'', content = JStr ''contentA'', file_type = ''js'',
             source = ''sourcemap'', original_path = ''a.js''\<rparr>], None), w)"
    by (simp add: parse_loaded_both_keys)
qed (simp add: embedded_loop_skips_null)

text \<open>
  Claim C9: when both lists are present with unequal lengths, \<open>zip\<close> stops at the shorter
  one. Parsing gives what the loop gives on the two lists cut to the shorter length; the
  records appended come, in order, from the first \<open>min (length ss) (length cs)\<close> sources;
  and nothing is raised when those sources are strings.
\<close>

theorem unequal_lengths_truncate:
  assumes "map_of kvs ''sources'' = Some (JArr ss)"
    and "map_of kvs ''sourcesContent'' = Some (JArr cs)"
  shows "parse_loaded env (JObj kvs) w files =
           (embedded_loop (zip (take (min (length ss) (length cs)) ss)
                               (take (min (length ss) (length cs)) cs)) files, w)
         \<and> (\<exists>ys. fst (fst (parse_loaded env (JObj kvs) w files)) = files @ ys
               \<and> subseq (map (\<lambda>r. JStr (original_path r)) ys)
                    (take (min (length ss) (length cs)) ss))
         \<and> ((\<forall>s \<in> set (take (min (length ss) (length cs)) ss). \<exists>p. s = JStr p)
               \<longrightarrow> snd (fst (parse_loaded env (JObj kvs) w files)) = None)"
proof -
  let ?n = "min (length ss) (length cs)"
  have pairs: "embedded_pairs (JObj kvs) = Inr (zip ss cs)"
    using assms by (simp add: embedded_pairs_def try_bind_def)
  have trunc: "zip (take ?n ss) (take ?n cs) = zip ss cs"
    by (simp add: take_zip [symmetric])
  have eq: "parse_loaded env (JObj kvs) w files = (embedded_loop (zip ss cs) files, w)"
    using assms pairs by (simp add: parse_loaded_both_keys embedded_branch_def)
  from embedded_loop_appends [of "zip ss cs" files] obtain ys where
    ys: "fst (embedded_loop (zip ss cs) files) = files @ ys"
        "subseq (map (\<lambda>r. (JStr (original_path r), content r)) ys) (zip ss cs)"
    by blast
  have "subseq (map fst (map (\<lambda>r. (JStr (original_path r), content r)) ys)) (map fst (zip ss cs))"
    using ys(2) by (rule subseq_map)
  then have sub: "subseq (map (\<lambda>r. JStr (original_path r)) ys) (take ?n ss)"
    by (simp add: comp_def map_fst_zip_take)
  have no_error: "snd (embedded_loop pairs fs) = None"
    if "\<forall>s \<in> set (map fst pairs). \<exists>p. s = JStr p" for pairs fs
    using that
  proof (induction pairs arbitrary: fs)
    case Nil
    show ?case by simp
  next
    case (Cons p pairs)
    obtain src cont where p: "p = (src, cont)" by (cases p)
    from Cons.prems p obtain sp where "src = JStr sp" by auto
    then have "\<exists>fs'. add_embedded src cont fs = Inr fs'"
      by (simp add: add_embedded_def Let_def)
    then show ?case using Cons p by auto
  qed
  have "snd (embedded_loop (zip ss cs) files) = None"
    if "\<forall>s \<in> set (take ?n ss). \<exists>p. s = JStr p"
    using that by (intro no_error) (simp add: map_fst_zip_take)
  then show ?thesis
    using eq trunc ys(1) sub by auto
qed

theorem unequal_lengths_truncate_witness:
  "parse_source_map sample_env long_sources_map 0 [] =
     (([\<lparr>path = ''a.js'', content = JStr ''contentA'', file_type = ''js'',
          source = ''sourcemap'', original_path = ''a.js''\<rparr>], None), 0)"
proof -
  have loads: "json_loads sample_env long_sources_map =
      Some (JObj [(''sources'', JArr [JStr ''a.js'', JStr ''b.js'', JStr ''d.js'']),
                  (''sourcesContent'', JArr [JStr ''contentA''])])"
    by code_simp
  have loop: "embedded_loop [(JStr ''a.js'', JStr ''contentA'')] [] =
      ([\<lparr>path = ''a.js'', content = JStr ''contentA'', file_type = ''js'',
          source = ''sourcemap'', original_path = ''a.js''\<rparr>], None)"
    by code_simp
  show ?thesis
    using unequal_lengths_truncate [of "[(''sources'', JArr [JStr ''a.js'', JStr ''b.js'', JStr ''d.js'']),
                  (''sourcesContent'', JArr [JStr ''contentA''])]"
                 "[JStr ''a.js'', JStr ''b.js'', JStr ''d.js'']" "[JStr ''contentA'']"
                 sample_env 0 "[]"] loads loop
    by (simp add: parse_source_map_def)
qed

section \<open>Properties of the ledger\<close>

text \<open>
  Claim C4: a ledger with at most one record per path keeps that property through
  \<open>_parse_source_map\<close> and through \<open>_analyze_source_maps\<close>, whatever the maps hold and
  whatever is raised on the way; the records already present stay where they are,
  unchanged; the ledger built from the empty one has at most one record per path; and an
  entry whose normalised path is already present is dropped.
\<close>

theorem ledger_first_seen_wins:
  assumes "distinct (map path files)"
  shows "distinct (map path (fst (fst (parse_source_map env payload w files))))
         \<and> prefix files (fst (fst (parse_source_map env payload w files)))
         \<and> distinct (map path (fst (analyze_source_maps env bundles w files)))
         \<and> prefix files (fst (analyze_source_maps env bundles w files))
         \<and> distinct (map path (fst (analyze_source_maps env bundles w [])))
         \<and> (\<forall>source_path cont. has_path files (clean_source_path source_path)
               \<longrightarrow> add_embedded (JStr source_path) cont files = Inr files)"
proof (intro conjI allI impI)
  show "distinct (map path (fst (analyze_source_maps env bundles w [])))"
    by (rule analyze_source_maps_distinct) simp
  show "distinct (map path (fst (fst (parse_source_map env payload w files))))"
    using assms by (rule parse_source_map_distinct)
  show "prefix files (fst (fst (parse_source_map env payload w files)))"
    using parse_source_map_appends [of env payload w files] by (auto simp: prefix_def)
  show "distinct (map path (fst (analyze_source_maps env bundles w files)))"
    using assms by (rule analyze_source_maps_distinct)
  show "prefix files (fst (analyze_source_maps env bundles w files))"
    using analyze_source_maps_appends [of env bundles w files] by (auto simp: prefix_def)
next
  fix source_path cont
  assume "has_path files (clean_source_path source_path)"
  then show "add_embedded (JStr source_path) cont files = Inr files"
    by (simp add: add_embedded_def Let_def)
qed

theorem ledger_first_seen_wins_witness:
  "fst (fst (parse_source_map sample_env main_css_map 0
       [\<lparr>path = ''a.js'', content = JStr ''contentA'', file_type = ''js'',
          source = ''sourcemap'', original_path = ''a.js''\<rparr>]))
   = [\<lparr>path = ''a.js'', content = JStr ''contentA'', file_type = ''js'',
          source = ''sourcemap'', original_path = ''a.js''\<rparr>,
      \<lparr>path = ''src/styles/c.css'', content = JStr ''body{}'', file_type = ''css'',
          source = ''sourcemap'', original_path = ''c.css''\<rparr>]
   \<and> distinct (map path (fst (fst (parse_source_map sample_env main_css_map 0
       [\<lparr>path = ''a.js'', content = JStr ''contentA'', file_type = ''js'',
          source = ''sourcemap'', original_path = ''a.js''\<rparr>]))))
   \<and> add_embedded (JStr ''a.js'') (JStr ''other'')
       [\<lparr>path = ''a.js'', content = JStr ''contentA'', file_type = ''js'',
          source = ''sourcemap'', original_path = ''a.js''\<rparr>]
     = Inr [\<lparr>path = ''a.js'', content = JStr ''contentA'', file_type = ''js'',
          source = ''sourcemap'', original_path = ''a.js''\<rparr>]"
proof -
  have run: "fst (fst (parse_source_map sample_env main_css_map 0
       [\<lparr>path = ''a.js'', content = JStr ''contentA'', file_type = ''js'',
          source = ''sourcemap'', original_path = ''a.js''\<rparr>]))
   = [\<lparr>path = ''a.js'', content = JStr ''contentA'', file_type = ''js'',
          source = ''sourcemap'', original_path = ''a.js''\<rparr>,
      \<lparr>path = ''src/styles/c.css'', content = JStr ''body{}'', file_type = ''css'',
          source = ''sourcemap'', original_path = ''c.css''\<rparr>]"
    by code_simp
  have present: "has_path [\<lparr>path = ''a.js'', content = JStr ''contentA'', file_type = ''js'',
          source = ''sourcemap'', original_path = ''a.js''\<rparr>] (clean_source_path ''a.js'')"
    by code_simp
  have "distinct (map path [\<lparr>path = ''a.js'', content = JStr ''contentA'', file_type = ''js'',
          source = ''sourcemap'', original_path = ''a.js''\<rparr>])"
    by simp
  from ledger_first_seen_wins [OF this, of sample_env main_css_map 0 "[]"] run present
  show ?thesis
    by blast
qed

lemma candidate_records_Nil: "candidate_records [] = []"
  by (simp add: candidate_records_def)

lemma candidate_records_Cons:
  "candidate_records ((src, cont) # pairs) = entry_candidate src cont @ candidate_records pairs"
  by (simp add: candidate_records_def)

lemma embedded_loop_refines:
  "fst (embedded_loop pairs files) =
     foldl ledger_insert files
       (candidate_records (takeWhile (\<lambda>(src, cont). cont = JNull \<or> (\<exists>sp. src = JStr sp)) pairs))"
proof (induction pairs arbitrary: files)
  case Nil
  show ?case by (simp add: candidate_records_Nil)
next
  case (Cons p pairs)
  obtain src cont where p: "p = (src, cont)" by (cases p)
  show ?case
  proof (cases "cont = JNull")
    case True
    then have "add_embedded src cont files = Inr files"
      by (simp add: add_embedded_def)
    moreover have "entry_candidate src cont = []"
      using True by (simp add: entry_candidate_def split: json.splits)
    ultimately show ?thesis
      using Cons.IH [of files] p True
      by (simp add: candidate_records_Cons)
  next
    case False
    show ?thesis
    proof (cases "\<exists>sp. src = JStr sp")
      case True
      then obtain sp where sp: "src = JStr sp" by blast
      have "add_embedded src cont files = Inr (foldl ledger_insert files (entry_candidate src cont))"
        using sp False
        by (simp add: add_embedded_def entry_candidate_def ledger_insert_def has_path_iff Let_def)
      then show ?thesis
        using Cons.IH [of "foldl ledger_insert files (entry_candidate src cont)"] p sp
        by (simp add: candidate_records_Cons)
    next
      case not_str: False
      then have "add_embedded src cont files = Inl AttributeError"
        using False by (cases src) (simp_all add: add_embedded_def)
      then show ?thesis
        using p False not_str by (simp add: candidate_records_Nil)
    qed
  qed
qed

lemma dev_server_loop_append:
  "dev_server_loop env (ss1 @ ss2) w files =
     (case dev_server_loop env ss1 w files of
        ((files1, None), w1) \<Rightarrow> dev_server_loop env ss2 w1 files1
      | ((files1, Some e), w1) \<Rightarrow> ((files1, Some e), w1))"
  by (induction ss1 arbitrary: w files) (auto split: prod.splits sum.splits option.splits)

lemma dev_server_loop_single:
  "dev_server_loop env [JStr source_path] w files =
     (if clean_source_path source_path \<noteq> []
         \<and> \<not> sublist ''node_modules'' (clean_source_path source_path)
         \<and> clean_source_path source_path \<notin> set (map path files) then
        (case fetch_from_webpack_dev_server env source_path w of
           (Some text, w') \<Rightarrow>
             ((if text \<noteq> [] then
                 files @ [\<lparr>path = clean_source_path source_path, content = JStr text,
                           file_type = determine_file_type (clean_source_path source_path),
                           source = ''webpack-dev-server'', original_path = source_path\<rparr>]
               else files, None), w')
         | (None, w') \<Rightarrow> ((files, None), w'))
      else ((files, None), w))"
  by (simp add: add_fetched_def Let_def has_path_iff split: prod.splits option.splits)

lemma analyze_single_bundle:
  "analyze_source_maps env [bundle_url] w files =
     (let second = (\<lambda>w1.
        (case session_get env w1
                (replace ''.css'' ''.css.map'' (replace ''.js'' ''.js.map'' bundle_url)) of
           (Some (status2, text2), w2) \<Rightarrow>
             if status2 = 200 then
               (fst (fst (parse_source_map env text2 w2 files)),
                snd (parse_source_map env text2 w2 files))
             else (files, w2)
         | (None, w2) \<Rightarrow> (files, w2)))
      in (case session_get env w (bundle_url @ ''.map'') of
            (Some (status1, text1), w1) \<Rightarrow>
              if status1 = 200 then
                (fst (fst (parse_source_map env text1 w1 files)),
                 snd (parse_source_map env text1 w1 files))
              else second w1
          | (None, w1) \<Rightarrow> second w1))"
  by (simp add: map_urls_def Let_def split: prod.splits option.splits)

lemma parse_source_map_dev_server:
  assumes "json_loads env payload = Some (JObj kvs)"
    and "map_of kvs ''sources'' = Some (JArr ss)"
    and "''sourcesContent'' \<notin> set (map fst kvs)"
  shows "parse_source_map env payload w files = dev_server_loop env ss w files"
proof -
  have "''sources'' \<in> set (map fst kvs)"
    using assms(2) by (auto dest!: map_of_SomeD intro: rev_image_eqI)
  then show ?thesis
    using assms
    by (simp add: parse_source_map_def parse_loaded_def dev_server_branch_def try_bind_def)
qed

lemma parse_source_map_embedded:
  assumes "json_loads env payload = Some (JObj kvs)"
    and "map_of kvs ''sources'' = Some (JArr ss)"
    and "map_of kvs ''sourcesContent'' = Some (JArr cs)"
  shows "parse_source_map env payload w files = (embedded_loop (zip ss cs) files, w)"
  using assms
  by (simp add: parse_source_map_def parse_loaded_both_keys embedded_branch_def
        embedded_pairs_def try_bind_def)

text \<open>
  Claim C5. The bundles are processed one after the other, each from the ledger and the
  world the previous ones left, so that what a later bundle adds comes after everything
  found before it. A single bundle adds exactly what \<open>_parse_source_map\<close> gives on the
  first of its two candidate map URLs that answers with status 200, and nothing when
  neither does. A map with contents leaves the ledger that the specification's insert
  builds from the map's candidates taken in the order of its entries (up to the first
  entry that raises). A map without contents is handled entry by entry, in order, each
  entry appending at most one record at the end. In every case the records a map adds
  carry its sources in the order of the map.
\<close>

theorem ledger_discovery_order:
  "analyze_source_maps env (bs1 @ bs2) w files =
     (case analyze_source_maps env bs1 w files of
        (files1, w1) \<Rightarrow> analyze_source_maps env bs2 w1 files1)
   \<and> (\<exists>ys1 w1 ys2 w2.
       analyze_source_maps env bs1 w files = (files @ ys1, w1)
     \<and> analyze_source_maps env bs2 w1 (files @ ys1) = (files @ ys1 @ ys2, w2)
     \<and> analyze_source_maps env (bs1 @ bs2) w files = (files @ ys1 @ ys2, w2))
   \<and> analyze_source_maps env [bundle_url] w files =
     (let second = (\<lambda>w1.
        (case session_get env w1
                (replace ''.css'' ''.css.map'' (replace ''.js'' ''.js.map'' bundle_url)) of
           (Some (status2, text2), w2) \<Rightarrow>
             if status2 = 200 then
               (fst (fst (parse_source_map env text2 w2 files)),
                snd (parse_source_map env text2 w2 files))
             else (files, w2)
         | (None, w2) \<Rightarrow> (files, w2)))
      in (case session_get env w (bundle_url @ ''.map'') of
            (Some (status1, text1), w1) \<Rightarrow>
              if status1 = 200 then
                (fst (fst (parse_source_map env text1 w1 files)),
                 snd (parse_source_map env text1 w1 files))
              else second w1
          | (None, w1) \<Rightarrow> second w1))
   \<and> (\<forall>kvs ss cs. json_loads env payload = Some (JObj kvs)
          \<and> map_of kvs ''sources'' = Some (JArr ss)
          \<and> map_of kvs ''sourcesContent'' = Some (JArr cs)
        \<longrightarrow> fst (fst (parse_source_map env payload w files)) =
              foldl ledger_insert files
                (candidate_records
                  (takeWhile (\<lambda>(src, cont). cont = JNull \<or> (\<exists>sp. src = JStr sp)) (zip ss cs))))
   \<and> (\<forall>kvs ss. json_loads env payload = Some (JObj kvs)
          \<and> map_of kvs ''sources'' = Some (JArr ss)
          \<and> ''sourcesContent'' \<notin> set (map fst kvs)
        \<longrightarrow> parse_source_map env payload w files = dev_server_loop env ss w files)
   \<and> dev_server_loop env (ss1 @ ss2) w files =
       (case dev_server_loop env ss1 w files of
          ((files1, None), w1) \<Rightarrow> dev_server_loop env ss2 w1 files1
        | ((files1, Some e), w1) \<Rightarrow> ((files1, Some e), w1))
   \<and> dev_server_loop env [JStr source_path] w files =
       (if clean_source_path source_path \<noteq> []
           \<and> \<not> sublist ''node_modules'' (clean_source_path source_path)
           \<and> clean_source_path source_path \<notin> set (map path files) then
          (case fetch_from_webpack_dev_server env source_path w of
             (Some text, w') \<Rightarrow>
               ((if text \<noteq> [] then
                   files @ [\<lparr>path = clean_source_path source_path, content = JStr text,
                             file_type = determine_file_type (clean_source_path source_path),
                             source = ''webpack-dev-server'', original_path = source_path\<rparr>]
                 else files, None), w')
           | (None, w') \<Rightarrow> ((files, None), w'))
        else ((files, None), w))
   \<and> (\<forall>source_map ss. json_loads env payload = Some source_map
          \<and> try_bind (py_getitem source_map ''sources'') py_iter = Inr ss
        \<longrightarrow> (\<exists>ys. fst (fst (parse_source_map env payload w files)) = files @ ys
               \<and> subseq (map (\<lambda>r. JStr (original_path r)) ys) ss))"
proof (intro conjI allI impI)
  show "analyze_source_maps env (bs1 @ bs2) w files =
     (case analyze_source_maps env bs1 w files of
        (files1, w1) \<Rightarrow> analyze_source_maps env bs2 w1 files1)"
    by (rule analyze_source_maps_append)
next
  obtain f1 w1 where a1: "analyze_source_maps env bs1 w files = (f1, w1)"
    by (cases "analyze_source_maps env bs1 w files")
  obtain f2 w2 where a2: "analyze_source_maps env bs2 w1 f1 = (f2, w2)"
    by (cases "analyze_source_maps env bs2 w1 f1")
  from analyze_source_maps_appends [of env bs1 w files] a1
  obtain ys1 where ys1: "f1 = files @ ys1" by auto
  from analyze_source_maps_appends [of env bs2 w1 f1] a2
  obtain ys2 where ys2: "f2 = f1 @ ys2" by auto
  have "analyze_source_maps env (bs1 @ bs2) w files = (f2, w2)"
    using a1 a2 by (simp add: analyze_source_maps_append)
  then show "\<exists>ys1 w1 ys2 w2.
       analyze_source_maps env bs1 w files = (files @ ys1, w1)
     \<and> analyze_source_maps env bs2 w1 (files @ ys1) = (files @ ys1 @ ys2, w2)
     \<and> analyze_source_maps env (bs1 @ bs2) w files = (files @ ys1 @ ys2, w2)"
    using a1 a2 ys1 ys2 by auto
next
  show "analyze_source_maps env [bundle_url] w files =
     (let second = (\<lambda>w1.
        (case session_get env w1
                (replace ''.css'' ''.css.map'' (replace ''.js'' ''.js.map'' bundle_url)) of
           (Some (status2, text2), w2) \<Rightarrow>
             if status2 = 200 then
               (fst (fst (parse_source_map env text2 w2 files)),
                snd (parse_source_map env text2 w2 files))
             else (files, w2)
         | (None, w2) \<Rightarrow> (files, w2)))
      in (case session_get env w (bundle_url @ ''.map'') of
            (Some (status1, text1), w1) \<Rightarrow>
              if status1 = 200 then
                (fst (fst (parse_source_map env text1 w1 files)),
                 snd (parse_source_map env text1 w1 files))
              else second w1
          | (None, w1) \<Rightarrow> second w1))"
    by (rule analyze_single_bundle)
next
  fix kvs ss cs
  assume "json_loads env payload = Some (JObj kvs)
          \<and> map_of kvs ''sources'' = Some (JArr ss)
          \<and> map_of kvs ''sourcesContent'' = Some (JArr cs)"
  then have "parse_source_map env payload w files = (embedded_loop (zip ss cs) files, w)"
    by (simp add: parse_source_map_embedded)
  then show "fst (fst (parse_source_map env payload w files)) =
              foldl ledger_insert files
                (candidate_records
                  (takeWhile (\<lambda>(src, cont). cont = JNull \<or> (\<exists>sp. src = JStr sp)) (zip ss cs)))"
    by (simp add: embedded_loop_refines)
next
  fix kvs ss
  assume "json_loads env payload = Some (JObj kvs)
          \<and> map_of kvs ''sources'' = Some (JArr ss)
          \<and> ''sourcesContent'' \<notin> set (map fst kvs)"
  then show "parse_source_map env payload w files = dev_server_loop env ss w files"
    by (simp add: parse_source_map_dev_server)
next
  show "dev_server_loop env (ss1 @ ss2) w files =
       (case dev_server_loop env ss1 w files of
          ((files1, None), w1) \<Rightarrow> dev_server_loop env ss2 w1 files1
        | ((files1, Some e), w1) \<Rightarrow> ((files1, Some e), w1))"
    by (rule dev_server_loop_append)
next
  show "dev_server_loop env [JStr source_path] w files =
       (if clean_source_path source_path \<noteq> []
           \<and> \<not> sublist ''node_modules'' (clean_source_path source_path)
           \<and> clean_source_path source_path \<notin> set (map path files) then
          (case fetch_from_webpack_dev_server env source_path w of
             (Some text, w') \<Rightarrow>
               ((if text \<noteq> [] then
                   files @ [\<lparr>path = clean_source_path source_path, content = JStr text,
                             file_type = determine_file_type (clean_source_path source_path),
                             source = ''webpack-dev-server'', original_path = source_path\<rparr>]
                 else files, None), w')
           | (None, w') \<Rightarrow> ((files, None), w'))
        else ((files, None), w))"
    by (rule dev_server_loop_single)
next
  fix source_map ss
  assume h: "json_loads env payload = Some source_map
          \<and> try_bind (py_getitem source_map ''sources'') py_iter = Inr ss"
  then have "parse_source_map env payload w files = parse_loaded env source_map w files"
    by (simp add: parse_source_map_def)
  then show "\<exists>ys. fst (fst (parse_source_map env payload w files)) = files @ ys
               \<and> subseq (map (\<lambda>r. JStr (original_path r)) ys) ss"
    using parse_loaded_appends [of env source_map w files] h by auto
qed

text \<open>Two bundles on the sample server: the ledger holds the record of the first, then the
  new record of the second.\<close>

theorem ledger_discovery_order_witness:
  "analyze_source_maps sample_env
     ([''http://localhost:3000/static/js/main.js''] @ [''http://localhost:3000/static/css/main.css''])
     0 []
   = ([\<lparr>path = ''a.js'', content = JStr ''contentA'', file_type = ''js'',
         source = ''sourcemap'', original_path = ''a.js''\<rparr>,
       \<lparr>path = ''src/styles/c.css'', content = JStr ''body{}'', file_type = ''css'',
         source = ''sourcemap'', original_path = ''c.css''\<rparr>], 2)"
proof -
  let ?a = "\<lparr>path = ''a.js'', content = JStr ''contentA'', file_type = ''js'',
         source = ''sourcemap'', original_path = ''a.js''\<rparr>"
  let ?c = "\<lparr>path = ''src/styles/c.css'', content = JStr ''body{}'', file_type = ''css'',
         source = ''sourcemap'', original_path = ''c.css''\<rparr>"
  let ?js = "''http://localhost:3000/static/js/main.js''"
  let ?css = "''http://localhost:3000/static/css/main.css''"
  have g1: "session_get sample_env 0 (?js @ ''.map'') = (Some (200, main_js_map), 1)"
    by code_simp
  have g2: "session_get sample_env 1 (?css @ ''.map'') = (Some (200, main_css_map), 2)"
    by code_simp
  have l1: "json_loads sample_env main_js_map =
      Some (JObj [(''sources'', JArr [JStr ''a.js'', JStr ''b.js'']),
                  (''sourcesContent'', JArr [JStr ''contentA'', JNull])])"
    by code_simp
  have l2: "json_loads sample_env main_css_map =
      Some (JObj [(''sources'', JArr [JStr ''a.js'', JStr ''c.css'']),
                  (''sourcesContent'', JArr [JStr ''other'', JStr ''body{}''])])"
    by code_simp
  have s1: "snd (parse_source_map sample_env main_js_map 1 []) = 1"
    by code_simp
  have s2: "snd (parse_source_map sample_env main_css_map 2 [?a]) = 2"
    by code_simp
  have c1: "foldl ledger_insert [] (candidate_records [(JStr ''a.js'', JStr ''contentA''),
      (JStr ''b.js'', JNull)]) = [?a]"
    by code_simp
  have c2: "foldl ledger_insert [?a] (candidate_records [(JStr ''a.js'', JStr ''other''),
      (JStr ''c.css'', JStr ''body{}'')]) = [?a, ?c]"
    by code_simp
  have p1: "fst (fst (parse_source_map sample_env main_js_map 1 [])) = [?a]"
    using ledger_discovery_order [where env = sample_env and payload = main_js_map and w = 1 and files = "[]"] l1 c1
    by simp
  have p2: "fst (fst (parse_source_map sample_env main_css_map 2 [?a])) = [?a, ?c]"
    using ledger_discovery_order [where env = sample_env and payload = main_css_map and w = 2 and files = "[?a]"] l2 c2
    by simp
  have b1: "analyze_source_maps sample_env [?js] 0 [] = ([?a], 1)"
    using ledger_discovery_order [where env = sample_env and bundle_url = ?js and w = 0 and files = "[]"] g1 p1 s1
    by simp
  have b2: "analyze_source_maps sample_env [?css] 1 [?a] = ([?a, ?c], 2)"
    using ledger_discovery_order [where env = sample_env and bundle_url = ?css and w = 1 and files = "[?a]"] g2 p2 s2
    by simp
  show ?thesis
    using ledger_discovery_order [where env = sample_env and ?bs1.0 = "[?js]" and ?bs2.0 = "[?css]" and w = 0
        and files = "[]"] b1 b2
    by simp
qed




end
